theory Spec2Isabelle
  imports Main "HOL-Library.Word"
begin

unbundle bit_operations_syntax

section \<open>The operating-system interface used by the driver\<close>

text \<open>
  The driver talks to its environment through system calls (\<^verbatim>\<open>remove\<close>, \<^verbatim>\<open>mkfifo\<close>,
  \<^verbatim>\<open>open\<close>, \<^verbatim>\<open>close\<close>, \<^verbatim>\<open>select\<close>, \<^verbatim>\<open>write\<close>, \<^verbatim>\<open>read\<close>) and through two memory-mapped
  32-bit registers. Every call is recorded, in program order, in a trace; the part of the
  environment the calls act on is a state record that is passed along explicitly.
\<close>

datatype reg = IM_REG0 | IM_REG1

datatype event =
    Remove string
  | Mkfifo string int
  | Open string int
  | Close int
  | Select int "int set"
  | Write int int
  | Read int int
  | ConfigWrite int
  | UioRead int
  | RegRead reg "32 word"
  | RegWrite reg "32 word"
  | ThreadSpawn

text \<open>
  \<open>fifos\<close> is the set of names present in the filesystem namespace, \<open>fdtab\<close> the table of
  open descriptors with the name each was opened on, \<open>wspace\<close> the number of bytes that
  can be written to a descriptor before a write would block. The other fields are the
  environment's choices: \<open>poll_ready\<close>, whether the readiness poll reports a descriptor
  that has room (a platform may ask for more than room for one byte, such as a free pipe
  buffer); \<open>remove_ok\<close>, whether \<^verbatim>\<open>remove\<close> succeeds on a name (it fails on a directory
  that is not empty, or in a read-only filesystem); \<open>mkfifo_ok\<close>, whether \<^verbatim>\<open>mkfifo\<close> is
  permitted on a name; and \<open>open_pick\<close>, which descriptor \<^verbatim>\<open>open\<close> hands out (a negative
  or already used pick is a failed open).
\<close>

record os =
  fifos :: "string set"
  fdtab :: "int \<rightharpoonup> string"
  wspace :: "int \<Rightarrow> nat"
  poll_ready :: "int \<Rightarrow> bool"
  remove_ok :: "string \<Rightarrow> bool"
  mkfifo_ok :: "string \<Rightarrow> bool"
  open_pick :: "(int \<rightharpoonup> string) \<Rightarrow> string \<Rightarrow> int"
  trace :: "event list"

text \<open>
  A call of the driver either returns (\<open>Done\<close>), runs into behaviour the language leaves
  undefined (an access outside an array: \<open>Undefined\<close>), ends the process with
  \<^verbatim>\<open>exit(code)\<close> (\<open>Exited\<close>) or is suspended in a blocking system call (\<open>Blocked\<close>).
\<close>

datatype 'a outcome =
    Done 'a os
  | Undefined os
  | Exited int os
  | Blocked os

fun world_of :: "'a outcome \<Rightarrow> os" where
  "world_of (Done x w) = w"
| "world_of (Undefined w) = w"
| "world_of (Exited c w) = w"
| "world_of (Blocked w) = w"

definition log :: "event \<Rightarrow> os \<Rightarrow> os" where
  "log e w = w\<lparr>trace := trace w @ [e]\<rparr>"

text \<open>
  \<^verbatim>\<open>remove(name)\<close>: the name is taken out of the namespace when the removal succeeds,
  and stays when it fails. The driver never looks at the result.
\<close>

definition os_remove :: "string \<Rightarrow> os \<Rightarrow> os" where
  "os_remove name w =
     log (Remove name) (if remove_ok w name then w\<lparr>fifos := fifos w - {name}\<rparr> else w)"

definition os_mkfifo :: "string \<Rightarrow> os \<Rightarrow> int \<times> os" where
  "os_mkfifo name w =
     (if mkfifo_ok w name \<and> name \<notin> fifos w
      then (0, log (Mkfifo name 0) (w\<lparr>fifos := insert name (fifos w)\<rparr>))
      else (-1, log (Mkfifo name (-1)) w))"

definition os_open :: "string \<Rightarrow> os \<Rightarrow> int \<times> os" where
  "os_open name w =
     (let fd = open_pick w (fdtab w) name in
      if name \<in> fifos w \<and> 0 \<le> fd \<and> fdtab w fd = None
      then (fd, log (Open name fd) (w\<lparr>fdtab := (fdtab w)(fd \<mapsto> name)\<rparr>))
      else (-1, log (Open name (-1)) w))"

definition os_close :: "int \<Rightarrow> os \<Rightarrow> os" where
  "os_close fd w = log (Close fd) (w\<lparr>fdtab := (fdtab w)(fd := None)\<rparr>)"

text \<open>
  \<^verbatim>\<open>select(nfds, NULL, &wfds, NULL, &timeout)\<close> with a zero timeout. It fails, leaving the
  set as it was, when the set holds a descriptor below \<open>nfds\<close> that is not open; otherwise
  it keeps the descriptors below \<open>nfds\<close> that the platform reports as writable. A
  descriptor without room is never reported; one with room is reported when the
  environment says so (\<open>poll_ready\<close>). An \<^verbatim>\<open>fd_set\<close> is a set of descriptors here; the
  capacity \<^verbatim>\<open>FD_SETSIZE\<close> that the platform gives it is not part of the model.
\<close>

definition os_select :: "int \<Rightarrow> int set \<Rightarrow> os \<Rightarrow> int set \<times> os" where
  "os_select nfds wfds w =
     (if \<exists>fd \<in> wfds. fd < nfds \<and> fdtab w fd = None
      then (wfds, log (Select nfds wfds) w)
      else ({fd \<in> wfds. fd < nfds \<and> poll_ready w fd \<and> 0 < wspace w fd},
            log (Select nfds wfds) w))"

text \<open>
  \<^verbatim>\<open>write(fd, "X", 1)\<close> on a descriptor opened without \<^verbatim>\<open>O_NONBLOCK\<close>: an error on a
  descriptor that is not open, a suspended caller when there is no room, one byte written
  otherwise.
\<close>

definition os_write :: "int \<Rightarrow> os \<Rightarrow> int outcome" where
  "os_write fd w =
     (if fdtab w fd = None then Done (-1) (log (Write fd (-1)) w)
      else if wspace w fd = 0 then Blocked w
      else Done 1 (log (Write fd 1) (w\<lparr>wspace := (wspace w)(fd := wspace w fd - 1)\<rparr>)))"

definition reg_write :: "reg \<Rightarrow> 32 word \<Rightarrow> os \<Rightarrow> os" where
  "reg_write r v w = log (RegWrite r v) w"

section \<open>Names of the FIFOs\<close>

text \<open>The conversions \<^verbatim>\<open>%i\<close> and \<^verbatim>\<open>%d\<close> of \<^verbatim>\<open>sprintf\<close>: a decimal numeral.\<close>

definition digit_char :: "nat \<Rightarrow> char" where
  "digit_char n = ''0123456789'' ! n"

fun decimal :: "nat \<Rightarrow> string" where
  "decimal n = (if n < 10 then [digit_char n] else decimal (n div 10) @ [digit_char (n mod 10)])"

declare decimal.simps [simp del]

definition sprintf_i :: "int \<Rightarrow> string" where
  "sprintf_i n = (if n < 0 then CHR ''-'' # decimal (nat (- n)) else decimal (nat n))"

text \<open>
  \<^verbatim>\<open>char name[256]; sprintf(name, "%s%i", path, n)\<close>: the name and its terminating zero
  byte have to fit the buffer, else the call writes past its end.
\<close>

definition NAME_SIZE :: nat where
  "NAME_SIZE = 256"

definition sprintf_name :: "string \<Rightarrow> int \<Rightarrow> string option" where
  "sprintf_name path n =
     (let name = path @ sprintf_i n in if length name < NAME_SIZE then Some name else None)"

section \<open>The distributor (distributor.h, distributor.cpp)\<close>

definition MAX_IRQS :: nat where
  "MAX_IRQS = 32"

record distributor =
  m_fd :: "int list"
  m_highestFD :: int
  m_irqCount :: int
  m_path :: string

text \<open>
  The members \<^verbatim>\<open>fd_\<close>, \<^verbatim>\<open>highestFD_\<close>, \<^verbatim>\<open>irqCount_\<close> and \<^verbatim>\<open>path_\<close> of the class are
  the fields \<open>m_fd\<close>, \<open>m_highestFD\<close>, \<open>m_irqCount\<close> and \<open>m_path\<close> (a name of the logic
  cannot end in an underscore).

  The constructor sets every slot of \<open>m_fd\<close> to \<open>-1\<close> and \<open>m_irqCount\<close> to \<open>0\<close>; \<open>m_path\<close>
  is default-constructed, that is empty. It does not set \<open>m_highestFD\<close>, whose value is
  whatever the object's storage held: the parameter \<open>h\<close>.
\<close>

definition CDistributor :: "int \<Rightarrow> distributor" where
  "CDistributor h = \<lparr>m_fd = replicate MAX_IRQS (-1), m_highestFD = h, m_irqCount = 0, m_path = []\<rparr>"

definition createPipe :: "string \<Rightarrow> int \<Rightarrow> os \<Rightarrow> int outcome" where
  "createPipe path n w =
     (case sprintf_name path n of
        None \<Rightarrow> Undefined w
      | Some name \<Rightarrow>
          (let w1 = os_remove name w;
               (r, w2) = os_mkfifo name w1
           in if r \<noteq> 0 then Done (-1) w2
              else (let (fd, w3) = os_open name w2
                    in if fd < 0 then Done (-1) w3 else Done fd w3)))"

definition openPipe :: "string \<Rightarrow> int \<Rightarrow> os \<Rightarrow> int outcome" where
  "openPipe path n w =
     (case sprintf_name path n of
        None \<Rightarrow> Undefined w
      | Some name \<Rightarrow>
          (let (fd, w1) = os_open name w
           in if fd < 0 then Exited 1 w1 else Done fd w1))"

text \<open>
  The loop of \<open>init\<close>. The loop counter starts at 0 and only counts up, so it is a
  natural number; the bound is the signed argument. The store \<^verbatim>\<open>fd_[i] = createPipe(...)\<close>
  happens after the call, and is outside the array from \<open>i = MAX_IRQS\<close> on.
\<close>

function init_loop :: "distributor \<Rightarrow> int \<Rightarrow> nat \<Rightarrow> os \<Rightarrow> (bool \<times> distributor) outcome" where
  "init_loop d irqCount i w =
     (if int i < irqCount then
        (case createPipe (m_path d) (int i) w of
           Done fd w1 \<Rightarrow>
             (if i < MAX_IRQS then
                (let d1 = d\<lparr>m_fd := (m_fd d)[i := fd]\<rparr> in
                 if m_fd d1 ! i = -1 then Done (False, d1) w1
                 else init_loop
                        (if m_fd d1 ! i > m_highestFD d1 then d1\<lparr>m_highestFD := m_fd d1 ! i\<rparr> else d1)
                        irqCount (Suc i) w1)
              else Undefined w1)
         | Undefined w1 \<Rightarrow> Undefined w1
         | Exited c w1 \<Rightarrow> Exited c w1
         | Blocked w1 \<Rightarrow> Blocked w1)
      else Done (True, d) w)"
  by pat_completeness auto
termination
  by (relation "measure (\<lambda>(d, irqCount, i, w). nat (irqCount - int i))") auto

declare init_loop.simps [simp del]

definition init :: "distributor \<Rightarrow> string \<Rightarrow> int \<Rightarrow> os \<Rightarrow> (bool \<times> distributor) outcome" where
  "init d dir irqCount w =
     init_loop (d\<lparr>m_path := dir @ ''/interrupt'', m_irqCount := irqCount, m_highestFD := -1\<rparr>)
       irqCount 0 w"

text \<open>The first loop of \<open>distribute\<close>: \<^verbatim>\<open>FD_SET(fd_[i], &wfds)\<close> for every source in use.\<close>

function fdset_loop :: "distributor \<Rightarrow> nat \<Rightarrow> int set \<Rightarrow> os \<Rightarrow> (int set) outcome" where
  "fdset_loop d i wfds w =
     (if int i < m_irqCount d then
        (if i < MAX_IRQS then fdset_loop d (Suc i) (insert (m_fd d ! i) wfds) w
         else Undefined w)
      else Done wfds w)"
  by pat_completeness auto
termination
  by (relation "measure (\<lambda>(d, i, wfds, w). nat (m_irqCount d - int i))") auto

declare fdset_loop.simps [simp del]

text \<open>
  The test \<^verbatim>\<open>irqSources & 1 << i\<close> of the second loop of \<open>distribute\<close>, on the 32 bits of
  the argument: the shift binds tighter than the conjunction, and a result other than zero
  counts as true. The argument is an \<^verbatim>\<open>int\<close> that \<open>monitorInterrupts\<close> passes a
  \<^verbatim>\<open>uint32_t\<close> in; it is taken as its 32 bits, and so is \<^verbatim>\<open>1 << 31\<close>.
\<close>

definition source_active :: "32 word \<Rightarrow> nat \<Rightarrow> bool" where
  "source_active irqSources i \<longleftrightarrow> irqSources AND push_bit i 1 \<noteq> 0"

text \<open>The second loop of \<open>distribute\<close>.\<close>

function write_loop :: "distributor \<Rightarrow> 32 word \<Rightarrow> int set \<Rightarrow> nat \<Rightarrow> os \<Rightarrow> unit outcome" where
  "write_loop d irqSources wfds i w =
     (if int i < m_irqCount d then
        (if i < MAX_IRQS then
           (let fd = m_fd d ! i in
            if source_active irqSources i then
              (if fd \<in> wfds then
                 (case os_write fd w of
                    Done r w1 \<Rightarrow> write_loop d irqSources wfds (Suc i) w1
                  | Undefined w1 \<Rightarrow> Undefined w1
                  | Exited c w1 \<Rightarrow> Exited c w1
                  | Blocked w1 \<Rightarrow> Blocked w1)
               else write_loop d irqSources wfds (Suc i) w)
            else write_loop d irqSources wfds (Suc i) w)
         else Undefined w)
      else Done () w)"
  by pat_completeness auto
termination
  by (relation "measure (\<lambda>(d, irqSources, wfds, i, w). nat (m_irqCount d - int i))") auto

declare write_loop.simps [simp del]

definition distribute :: "distributor \<Rightarrow> 32 word \<Rightarrow> os \<Rightarrow> unit outcome" where
  "distribute d irqSources w =
     (case fdset_loop d 0 {} w of
        Done wfds w0 \<Rightarrow>
          (let (ready, w1) = os_select (m_highestFD d + 1) wfds w0
           in write_loop d irqSources ready 0 w1)
      | Undefined w0 \<Rightarrow> Undefined w0
      | Exited c w0 \<Rightarrow> Exited c w0
      | Blocked w0 \<Rightarrow> Blocked w0)"

text \<open>The two loops of \<open>cleanup\<close>.\<close>

function close_loop :: "distributor \<Rightarrow> nat \<Rightarrow> os \<Rightarrow> distributor outcome" where
  "close_loop d i w =
     (if int i < m_irqCount d then
        (if i < MAX_IRQS then
           (let fd = m_fd d ! i;
                w1 = (if fd \<noteq> -1 then os_close fd w else w)
            in close_loop (d\<lparr>m_fd := (m_fd d)[i := -1]\<rparr>) (Suc i) w1)
         else Undefined w)
      else Done d w)"
  by pat_completeness auto
termination
  by (relation "measure (\<lambda>(d, i, w). nat (m_irqCount d - int i))") auto

declare close_loop.simps [simp del]

function remove_loop :: "string \<Rightarrow> nat \<Rightarrow> os \<Rightarrow> unit outcome" where
  "remove_loop path i w =
     (if i < MAX_IRQS then
        (case sprintf_name path (int i) of
           None \<Rightarrow> Undefined w
         | Some filename \<Rightarrow> remove_loop path (Suc i) (os_remove filename w))
      else Done () w)"
  by pat_completeness auto
termination
  by (relation "measure (\<lambda>(path, i, w). MAX_IRQS - i)") auto

declare remove_loop.simps [simp del]

definition cleanup :: "distributor \<Rightarrow> os \<Rightarrow> distributor outcome" where
  "cleanup d w =
     (case close_loop d 0 w of
        Done d1 w1 \<Rightarrow>
          (if m_path d1 = [] then Done d1 w1
           else (case remove_loop (m_path d1) 0 w1 of
                   Done u w2 \<Rightarrow> Done d1 w2
                 | Undefined w2 \<Rightarrow> Undefined w2
                 | Exited c w2 \<Rightarrow> Exited c w2
                 | Blocked w2 \<Rightarrow> Blocked w2))
      | Undefined w1 \<Rightarrow> Undefined w1
      | Exited c w1 \<Rightarrow> Exited c w1
      | Blocked w1 \<Rightarrow> Blocked w1)"

text \<open>
  \<open>spawnSelfTest\<close> starts \<open>selfTest\<close> in a detached thread, unless \<open>m_irqCount\<close> is zero.
  What the call itself does to the environment is the start of the thread.
\<close>

definition spawnSelfTest :: "distributor \<Rightarrow> os \<Rightarrow> os" where
  "spawnSelfTest d w = (if m_irqCount d = 0 then w else log ThreadSpawn w)"

text \<open>
  \<open>selfTest\<close> first opens every FIFO read-only into a local array \<^verbatim>\<open>int fd[MAX_IRQS]\<close>,
  whose slots hold no value until they are assigned (\<open>None\<close>).
\<close>

function open_loop :: "distributor \<Rightarrow> nat \<Rightarrow> int option list \<Rightarrow> os \<Rightarrow> (int option list) outcome" where
  "open_loop d i fd w =
     (if int i < m_irqCount d then
        (case openPipe (m_path d) (int i) w of
           Done r w1 \<Rightarrow>
             (if i < MAX_IRQS then open_loop d (Suc i) (fd[i := Some r]) w1 else Undefined w1)
         | Undefined w1 \<Rightarrow> Undefined w1
         | Exited c w1 \<Rightarrow> Exited c w1
         | Blocked w1 \<Rightarrow> Blocked w1)
      else Done fd w)"
  by pat_completeness auto
termination
  by (relation "measure (\<lambda>(d, i, fd, w). nat (m_irqCount d - int i))") auto

declare open_loop.simps [simp del]

text \<open>
  One iteration of the loop of \<open>selfTest\<close>, given what the blocking one-byte \<^verbatim>\<open>read\<close>
  returned: the loop is left (\<open>LoopBreak\<close>), the process exits, or the loop goes on with
  the next interrupt source. The messages printed to the standard output are left out, and
  with them the counter of tests, which is only printed.
\<close>

datatype step = LoopBreak | LoopExit int | LoopNext nat

definition selfTest_step :: "distributor \<Rightarrow> nat \<Rightarrow> int \<Rightarrow> step" where
  "selfTest_step d irq bytesRead =
     (if bytesRead = 0 then LoopBreak
      else if bytesRead \<noteq> 1 then LoopExit 1
      else LoopNext (if int (Suc irq) = m_irqCount d then 0 else Suc irq))"

text \<open>
  The loop runs until the process is killed; the model runs it on the results of the
  successive reads, and is suspended in \<^verbatim>\<open>read\<close> when they are used up.
\<close>

fun selfTest_loop :: "distributor \<Rightarrow> int option list \<Rightarrow> nat \<Rightarrow> int list \<Rightarrow> os \<Rightarrow> unit outcome" where
  "selfTest_loop d fd irq [] w =
     (if irq < MAX_IRQS then
        (let w1 = reg_write IM_REG0 (push_bit irq 1) w in
         case fd ! irq of None \<Rightarrow> Undefined w1 | Some f \<Rightarrow> Blocked w1)
      else Undefined w)"
| "selfTest_loop d fd irq (bytesRead # rest) w =
     (if irq < MAX_IRQS then
        (let w1 = reg_write IM_REG0 (push_bit irq 1) w in
         case fd ! irq of
           None \<Rightarrow> Undefined w1
         | Some f \<Rightarrow>
             (let w2 = log (Read f bytesRead) w1 in
              case selfTest_step d irq bytesRead of
                LoopBreak \<Rightarrow> Done () w2
              | LoopExit c \<Rightarrow> Exited c w2
              | LoopNext irq' \<Rightarrow> selfTest_loop d fd irq' rest w2))
      else Undefined w)"

definition selfTest :: "distributor \<Rightarrow> int list \<Rightarrow> os \<Rightarrow> unit outcome" where
  "selfTest d reads w =
     (case open_loop d 0 (replicate MAX_IRQS None) w of
        Done fd w1 \<Rightarrow> selfTest_loop d fd 0 reads w1
      | Undefined w1 \<Rightarrow> Undefined w1
      | Exited c w1 \<Rightarrow> Exited c w1
      | Blocked w1 \<Rightarrow> Blocked w1)"

section \<open>The interrupt monitor loop (main.cpp)\<close>

text \<open>
  One pass of the loop of \<open>monitorInterrupts\<close>, on the global \<open>Distributor\<close>. What the
  environment supplies in a pass: the result of the \<^verbatim>\<open>pwrite\<close> that re-enables interrupts,
  the result of the blocking \<^verbatim>\<open>read\<close> of the notification file, and the value read from
  the status register \<^verbatim>\<open>*imReg0\<close>. The message of the verbose mode is left out.
\<close>

record pass_input =
  pwrite_ret :: int
  read_ret :: int
  status :: "32 word"

definition monitor_pass :: "distributor \<Rightarrow> pass_input \<Rightarrow> os \<Rightarrow> unit outcome" where
  "monitor_pass d inp w =
     (let w1 = log (ConfigWrite (pwrite_ret inp)) w in
      if pwrite_ret inp \<noteq> 1 then Exited 1 w1
      else
        (let w2 = log (UioRead (read_ret inp)) w1 in
         if read_ret inp \<noteq> 4 then Exited 1 w2
         else
           (let intSources = status inp;
                w3 = log (RegRead IM_REG0 intSources) w2
            in if intSources = 0 then Done () w3
               else distribute d intSources (reg_write IM_REG1 intSources w3))))"

text \<open>
  The loop itself, which never ends, on the inputs of the successive passes; where they are
  used up the driver is waiting for the next notification.
\<close>

fun monitorInterrupts :: "distributor \<Rightarrow> pass_input list \<Rightarrow> os \<Rightarrow> unit outcome" where
  "monitorInterrupts d [] w = Blocked w"
| "monitorInterrupts d (inp # inps) w =
     (case monitor_pass d inp w of
        Done u w1 \<Rightarrow> monitorInterrupts d inps w1
      | Undefined w1 \<Rightarrow> Undefined w1
      | Exited c w1 \<Rightarrow> Exited c w1
      | Blocked w1 \<Rightarrow> Blocked w1)"

section \<open>States of the distributor and of its environment\<close>

text \<open>
  What the loop of \<open>init\<close> has established for the first \<open>k\<close> interrupt sources: the
  slot of each holds a descriptor that is open on the FIFO of that source, which exists,
  and \<open>m_highestFD\<close> is not below it.
\<close>

definition chan_inv :: "distributor \<Rightarrow> os \<Rightarrow> nat \<Rightarrow> bool" where
  "chan_inv d w k \<longleftrightarrow>
     (\<forall>j<k. 0 \<le> m_fd d ! j \<and> m_fd d ! j \<le> m_highestFD d \<and>
            fdtab w (m_fd d ! j) = Some (m_path d @ sprintf_i (int j)) \<and>
            m_path d @ sprintf_i (int j) \<in> fifos w)"

text \<open>
  The state in which \<open>distribute\<close> is called: \<open>init\<close> has returned \<open>true\<close> and the
  descriptors it stored are still open, each on the FIFO of its interrupt source.
\<close>

definition initialized :: "distributor \<Rightarrow> os \<Rightarrow> bool" where
  "initialized d w \<longleftrightarrow>
     length (m_fd d) = MAX_IRQS \<and> m_irqCount d \<le> int MAX_IRQS \<and>
     (\<forall>j < nat (m_irqCount d).
        m_fd d ! j \<le> m_highestFD d \<and>
        fdtab w (m_fd d ! j) = Some (m_path d @ sprintf_i (int j)))"

text \<open>
  The calls made between two states of the environment, and the number of one-byte writes
  to a descriptor among some calls.
\<close>

definition events_since :: "os \<Rightarrow> os \<Rightarrow> event list" where
  "events_since w w' = drop (length (trace w)) (trace w')"

definition bytes_written :: "event list \<Rightarrow> int \<Rightarrow> nat" where
  "bytes_written es fd = count_list es (Write fd 1)"

text \<open>
  The descriptors that the readiness poll of \<open>distribute\<close> reports as writable when
  \<open>distribute\<close> is called on \<open>d\<close> in the environment \<open>w\<close>: what \<^verbatim>\<open>select\<close> leaves in the
  set built from the descriptors of the sources in use.
\<close>

definition polled :: "distributor \<Rightarrow> os \<Rightarrow> int set" where
  "polled d w =
     fst (os_select (m_highestFD d + 1) {m_fd d ! j | j. j < nat (m_irqCount d)} w)"


text \<open>
  An environment to run the driver in: an empty directory where every \<^verbatim>\<open>mkfifo\<close> is
  permitted and every \<^verbatim>\<open>remove\<close> succeeds, no descriptor open, \<^verbatim>\<open>open\<close> handing out the
  lowest free descriptor from 3 on, and room for one byte behind every descriptor, which
  the poll reports.
\<close>

fun first_free :: "(int \<rightharpoonup> string) \<Rightarrow> int \<Rightarrow> nat \<Rightarrow> int" where
  "first_free tab fd 0 = -1"
| "first_free tab fd (Suc n) = (if tab fd = None then fd else first_free tab (fd + 1) n)"

definition sample_os :: os where
  "sample_os = \<lparr>fifos = {}, fdtab = Map.empty, wspace = (\<lambda>fd. 1), poll_ready = (\<lambda>fd. True),
     remove_ok = (\<lambda>name. True), mkfifo_ok = (\<lambda>name. True),
     open_pick = (\<lambda>tab name. first_free tab 3 64), trace = []\<rparr>"

text \<open>
  That environment after the FIFOs of the first \<open>k\<close> interrupt sources have been created
  and opened there, for the directory \<^verbatim>\<open>.\<close>.
\<close>

definition after_sources :: "nat \<Rightarrow> os" where
  "after_sources k = sample_os
     \<lparr>fifos := {''./interrupt'' @ sprintf_i (int j) | j. j < k},
      fdtab := (\<lambda>fd. if 3 \<le> fd \<and> fd < 3 + int k
                      then Some (''./interrupt'' @ sprintf_i (fd - 3)) else None),
      trace := concat (map (\<lambda>j. [Remove (''./interrupt'' @ sprintf_i (int j)),
                                  Mkfifo (''./interrupt'' @ sprintf_i (int j)) 0,
                                  Open (''./interrupt'' @ sprintf_i (int j)) (3 + int j)])
                         [0..<k])\<rparr>"

text \<open>The distributor and the environment that \<open>init\<close> with three sources leaves there.\<close>

definition three_channels :: distributor where
  "three_channels = \<lparr>m_fd = [3, 4, 5] @ replicate 29 (-1), m_highestFD = 5, m_irqCount = 3,
     m_path = ''./interrupt''\<rparr>"

definition three_channels_os :: os where
  "three_channels_os = sample_os
     \<lparr>fifos := {''./interrupt2'', ''./interrupt1'', ''./interrupt0''},
      fdtab := [3 \<mapsto> ''./interrupt0'', 4 \<mapsto> ''./interrupt1'', 5 \<mapsto> ''./interrupt2''],
      trace := [Remove ''./interrupt0'', Mkfifo ''./interrupt0'' 0, Open ''./interrupt0'' 3,
                Remove ''./interrupt1'', Mkfifo ''./interrupt1'' 0, Open ''./interrupt1'' 4,
                Remove ''./interrupt2'', Mkfifo ''./interrupt2'' 0, Open ''./interrupt2'' 5]\<rparr>"

text \<open>
  The same three channels in an environment where the descriptor 5 has room for a byte
  but the poll does not report it.
\<close>

definition unreported_os :: os where
  "unreported_os = three_channels_os\<lparr>poll_ready := (\<lambda>fd. fd \<noteq> 5)\<rparr>"




section \<open>Decimal numerals and FIFO names\<close>

lemma digit_char_inj: "m < 10 \<Longrightarrow> n < 10 \<Longrightarrow> digit_char m = digit_char n \<Longrightarrow> m = n"
proof -
  assume "m < 10" "n < 10" "digit_char m = digit_char n"
  moreover have "distinct ''0123456789''" by simp
  ultimately show "m = n"
    unfolding digit_char_def by (simp add: nth_eq_iff_index_eq)
qed

lemma decimal_digit: "n < 10 \<Longrightarrow> decimal n = [digit_char n]"
  by (subst decimal.simps) simp

lemma decimal_more: "\<not> n < 10 \<Longrightarrow> decimal n = decimal (n div 10) @ [digit_char (n mod 10)]"
  by (subst decimal.simps) simp

lemma decimal_length: "0 < length (decimal n)"
  by (subst decimal.simps) simp

lemma decimal_length_small: "n < 100 \<Longrightarrow> length (decimal n) \<le> 2"
proof (cases "n < 10")
  case True
  then show ?thesis by (simp add: decimal_digit)
next
  case False
  moreover assume "n < 100"
  then have "n div 10 < 10" by simp
  ultimately show ?thesis by (simp add: decimal_more decimal_digit)
qed

lemma decimal_inj: "decimal m = decimal n \<Longrightarrow> m = n"
proof (induction m arbitrary: n rule: decimal.induct)
  case (1 m)
  show ?case
  proof (cases "m < 10")
    case True
    have "n < 10"
    proof (rule ccontr)
      assume "\<not> n < 10"
      with True "1.prems" decimal_length [of "n div 10"] show False
        by (simp add: decimal_digit decimal_more)
    qed
    with True "1.prems" show ?thesis
      by (simp add: decimal_digit digit_char_inj)
  next
    case False
    have large: "\<not> n < 10"
    proof
      assume "n < 10"
      with False "1.prems" decimal_length [of "m div 10"] show False
        by (simp add: decimal_digit decimal_more)
    qed
    with False "1.prems" have front: "decimal (m div 10) = decimal (n div 10)"
      and last: "digit_char (m mod 10) = digit_char (n mod 10)"
      by (simp_all add: decimal_more)
    from "1.IH" [OF False front] have "m div 10 = n div 10" .
    moreover from last have "m mod 10 = n mod 10" by (simp add: digit_char_inj)
    ultimately show ?thesis by (metis div_mult_mod_eq)
  qed
qed

lemma sprintf_i_inj_nat: "sprintf_i (int i) = sprintf_i (int j) \<Longrightarrow> i = j"
  by (simp add: sprintf_i_def decimal_inj)


lemma sprintf_name_Some: "sprintf_name path n = Some name \<Longrightarrow> name = path @ sprintf_i n"
  by (simp add: sprintf_name_def Let_def split: if_splits)

section \<open>Loops that do not run\<close>

lemma close_loop_none: "m_irqCount d \<le> 0 \<Longrightarrow> close_loop d 0 w = Done d w"
  by (simp add: close_loop.simps [of d 0])

lemma fdset_loop_none: "m_irqCount d \<le> 0 \<Longrightarrow> fdset_loop d 0 s w = Done s w"
  by (simp add: fdset_loop.simps [of d 0])

lemma write_loop_none: "m_irqCount d \<le> 0 \<Longrightarrow> write_loop d b s 0 w = Done () w"
  by (simp add: write_loop.simps [of d b s 0])

section \<open>What the loops of \<open>distribute\<close> do\<close>

lemma fdset_loop_world: "world_of (fdset_loop d i s w) = w"
proof (induction d i s w rule: fdset_loop.induct)
  case (1 d i wfds w)
  then show ?case by (subst fdset_loop.simps) simp
qed

lemma os_write_trace:
  "\<exists>es. trace (world_of (os_write fd w)) = trace w @ es \<and> (\<forall>e \<in> set es. \<exists>f r. e = Write f r)"
  by (simp add: os_write_def log_def)

lemma write_loop_trace:
  "\<exists>es. trace (world_of (write_loop d b s i w)) = trace w @ es \<and> (\<forall>e \<in> set es. \<exists>f r. e = Write f r)"
proof (induction d b s i w rule: write_loop.induct)
  case (1 d b s i w)
  let ?goal = "\<lambda>r. \<exists>es. trace (world_of r) = trace w @ es \<and> (\<forall>e \<in> set es. \<exists>f r. e = Write f r)"
  have stay: "?goal (Done () w)" "?goal (Undefined w :: unit outcome)" by simp_all
  show ?case
  proof (cases "int i < m_irqCount d \<and> i < MAX_IRQS")
    case False
    then have "write_loop d b s i w = Done () w \<or> write_loop d b s i w = Undefined w"
      by (simp add: write_loop.simps [of d b s i w])
    with stay show ?thesis by metis
  next
    case run: True
    show ?thesis
    proof (cases "source_active b i")
      case False
      with run have eq: "write_loop d b s i w = write_loop d b s (Suc i) w"
        by (simp add: write_loop.simps [of d b s i w])
      from run False have "?goal (write_loop d b s (Suc i) w)"
        by (intro "1.IH"(3)) simp_all
      with eq show ?thesis by simp
    next
      case bit: True
      show ?thesis
      proof (cases "m_fd d ! i \<in> s")
        case False
        with run bit have eq: "write_loop d b s i w = write_loop d b s (Suc i) w"
          by (simp add: write_loop.simps [of d b s i w])
        from run bit False have "?goal (write_loop d b s (Suc i) w)"
          by (intro "1.IH"(2)) simp_all
        with eq show ?thesis by simp
      next
        case True
        from os_write_trace [of "m_fd d ! i" w] obtain es1 where
          es1: "trace (world_of (os_write (m_fd d ! i) w)) = trace w @ es1"
            "\<forall>e \<in> set es1. \<exists>f r. e = Write f r" by blast
        show ?thesis
        proof (cases "os_write (m_fd d ! i) w")
          case (Done r w1)
          with run bit True have eq: "write_loop d b s i w = write_loop d b s (Suc i) w1"
            by (simp add: write_loop.simps [of d b s i w])
          from run bit True Done
          have "\<exists>es. trace (world_of (write_loop d b s (Suc i) w1)) = trace w1 @ es \<and>
                  (\<forall>e \<in> set es. \<exists>f r. e = Write f r)"
            by (intro "1.IH"(1)) simp_all
          then obtain es2 where
            es2: "trace (world_of (write_loop d b s (Suc i) w1)) = trace w1 @ es2"
              "\<forall>e \<in> set es2. \<exists>f r. e = Write f r" by blast
          from es1 Done have "trace w1 = trace w @ es1" by simp
          with es2(1) eq have "trace (world_of (write_loop d b s i w)) = trace w @ (es1 @ es2)"
            by simp
          moreover from es1(2) es2(2) have "\<forall>e \<in> set (es1 @ es2). \<exists>f r. e = Write f r"
            by auto
          ultimately show ?thesis by blast
        next
          case (Undefined w1)
          with run bit True have "write_loop d b s i w = Undefined w1"
            by (simp add: write_loop.simps [of d b s i w])
          with es1 Undefined show ?thesis by auto
        next
          case (Exited c w1)
          with run bit True have "write_loop d b s i w = Exited c w1"
            by (simp add: write_loop.simps [of d b s i w])
          with es1 Exited show ?thesis by auto
        next
          case (Blocked w1)
          with run bit True have "write_loop d b s i w = Blocked w1"
            by (simp add: write_loop.simps [of d b s i w])
          with es1 Blocked show ?thesis by auto
        qed
      qed
    qed
  qed
qed

lemma distribute_trace:
  "\<exists>es. trace (world_of (distribute d b w)) = trace w @ es \<and>
        (\<forall>e \<in> set es. (\<exists>n s. e = Select n s) \<or> (\<exists>f r. e = Write f r))"
proof (cases "fdset_loop d 0 {} w")
  case (Done wfds w0)
  with fdset_loop_world [of d 0 "{}" w] have w0: "w0 = w" by simp
  obtain rdy w1 where sel: "os_select (m_highestFD d + 1) wfds w = (rdy, w1)" by fastforce
  then have t1: "trace w1 = trace w @ [Select (m_highestFD d + 1) wfds]"
    by (auto simp: os_select_def log_def split: if_splits)
  from write_loop_trace [of d b rdy 0 w1] obtain es where
    es: "trace (world_of (write_loop d b rdy 0 w1)) = trace w1 @ es" "\<forall>e \<in> set es. \<exists>f r. e = Write f r"
    by auto
  have "trace (world_of (distribute d b w)) = trace w @ (Select (m_highestFD d + 1) wfds # es)"
    using Done w0 sel t1 es(1) by (simp add: distribute_def)
  moreover have "\<forall>e \<in> set (Select (m_highestFD d + 1) wfds # es). (\<exists>n s. e = Select n s) \<or> (\<exists>f r. e = Write f r)"
    using es(2) by simp
  ultimately show ?thesis by blast
next
  case (Undefined w0)
  with fdset_loop_world [of d 0 "{}" w] show ?thesis by (simp add: distribute_def)
next
  case (Exited c w0)
  with fdset_loop_world [of d 0 "{}" w] show ?thesis by (simp add: distribute_def)
next
  case (Blocked w0)
  with fdset_loop_world [of d 0 "{}" w] show ?thesis by (simp add: distribute_def)
qed

lemma initialized_inj:
  assumes "initialized d w" "i < nat (m_irqCount d)" "j < nat (m_irqCount d)"
    "m_fd d ! i = m_fd d ! j"
  shows "i = j"
proof -
  from assms(1,2) have "fdtab w (m_fd d ! i) = Some (m_path d @ sprintf_i (int i))"
    by (simp add: initialized_def)
  moreover from assms(1,3) have "fdtab w (m_fd d ! j) = Some (m_path d @ sprintf_i (int j))"
    by (simp add: initialized_def)
  ultimately have "sprintf_i (int i) = sprintf_i (int j)" using assms(4) by simp
  then show ?thesis by (rule sprintf_i_inj_nat)
qed

lemma fdset_loop_Done:
  "m_irqCount d \<le> int MAX_IRQS \<Longrightarrow>
   fdset_loop d i s w = Done (s \<union> {m_fd d ! j | j. i \<le> j \<and> j < nat (m_irqCount d)}) w"
proof (induction d i s w rule: fdset_loop.induct)
  case (1 d i wfds w)
  show ?case
  proof (cases "int i < m_irqCount d")
    case False
    then have none: "{m_fd d ! j | j. i \<le> j \<and> j < nat (m_irqCount d)} = {}" by auto
    from False have "fdset_loop d i wfds w = Done wfds w"
      by (simp add: fdset_loop.simps [of d i wfds w])
    then show ?thesis by (simp only: none Un_empty_right)
  next
    case True
    with "1.prems" have lt: "i < MAX_IRQS" by linarith
    have split: "{m_fd d ! j | j. i \<le> j \<and> j < nat (m_irqCount d)} =
        insert (m_fd d ! i) {m_fd d ! j | j. Suc i \<le> j \<and> j < nat (m_irqCount d)}"
    proof -
      have "\<And>j. (i \<le> j \<and> j < nat (m_irqCount d)) = (j = i \<or> (Suc i \<le> j \<and> j < nat (m_irqCount d)))"
        using True by auto
      then show ?thesis by auto
    qed
    from True lt "1.prems" have "fdset_loop d (Suc i) (insert (m_fd d ! i) wfds) w =
        Done (insert (m_fd d ! i) wfds \<union> {m_fd d ! j | j. Suc i \<le> j \<and> j < nat (m_irqCount d)}) w"
      by (intro "1.IH") simp_all
    with True lt split show ?thesis by (simp add: fdset_loop.simps [of d i wfds w])
  qed
qed

lemma source_active_bit: "source_active b i = bit b i"
  unfolding source_active_def by (rule bit_iff_and_push_bit_not_eq_0 [symmetric])

lemma write_loop_end: "\<not> int i < m_irqCount d \<Longrightarrow> write_loop d b rdy i w = Done () w"
  by (simp add: write_loop.simps [of d b rdy i w])

lemma write_loop_skip:
  "int i < m_irqCount d \<Longrightarrow> i < MAX_IRQS \<Longrightarrow> \<not> (source_active b i \<and> m_fd d ! i \<in> rdy) \<Longrightarrow>
   write_loop d b rdy i w = write_loop d b rdy (Suc i) w"
  by (simp add: write_loop.simps [of d b rdy i w] Let_def)

lemma write_loop_write:
  "int i < m_irqCount d \<Longrightarrow> i < MAX_IRQS \<Longrightarrow> source_active b i \<Longrightarrow> m_fd d ! i \<in> rdy \<Longrightarrow>
   os_write (m_fd d ! i) w = Done r w1 \<Longrightarrow>
   write_loop d b rdy i w = write_loop d b rdy (Suc i) w1"
  by (simp add: write_loop.simps [of d b rdy i w] Let_def)

lemma write_loop_ready:
  assumes "m_irqCount d \<le> int MAX_IRQS"
    and inj: "\<And>i j. i < nat (m_irqCount d) \<Longrightarrow> j < nat (m_irqCount d) \<Longrightarrow>
               m_fd d ! i = m_fd d ! j \<Longrightarrow> i = j"
    and "\<And>j. j < nat (m_irqCount d) \<Longrightarrow> fdtab w (m_fd d ! j) \<noteq> None"
    and "\<And>j. i \<le> j \<Longrightarrow> j < nat (m_irqCount d) \<Longrightarrow> m_fd d ! j \<in> rdy \<Longrightarrow>
              0 < wspace w (m_fd d ! j)"
  shows "\<exists>w'. write_loop d b rdy i w = Done () w' \<and>
           trace w' = trace w @ map (\<lambda>j. Write (m_fd d ! j) 1)
                        (filter (\<lambda>j. source_active b j \<and> m_fd d ! j \<in> rdy) [i..<nat (m_irqCount d)]) \<and>
           fdtab w' = fdtab w \<and> fifos w' = fifos w"
  using assms(3,4)
proof (induction "nat (m_irqCount d) - i" arbitrary: i w)
  case 0
  then have stop: "\<not> int i < m_irqCount d" by linarith
  then have empty: "[i..<nat (m_irqCount d)] = []" by simp
  have "write_loop d b rdy i w = Done () w" using stop by (rule write_loop_end)
  then show ?case unfolding empty by simp
next
  case (Suc k)
  from Suc.hyps(2) have run: "int i < m_irqCount d" and lt: "i < nat (m_irqCount d)"
    by linarith+
  with assms(1) have max: "i < MAX_IRQS" by linarith
  have upt: "[i..<nat (m_irqCount d)] = i # [Suc i..<nat (m_irqCount d)]"
    using lt by (rule upt_conv_Cons)
  from Suc.hyps(2) have k: "k = nat (m_irqCount d) - Suc i" by simp
  let ?P = "\<lambda>j. source_active b j \<and> m_fd d ! j \<in> rdy"
  show ?case
  proof (cases "?P i")
    case False
    have eq: "write_loop d b rdy i w = write_loop d b rdy (Suc i) w"
      using run max False by (rule write_loop_skip)
    have skip: "filter ?P [i..<nat (m_irqCount d)] = filter ?P [Suc i..<nat (m_irqCount d)]"
      using False by (simp only: upt filter.simps simp_thms if_False)
    have "\<exists>w'. write_loop d b rdy (Suc i) w = Done () w' \<and>
           trace w' = trace w @ map (\<lambda>j. Write (m_fd d ! j) 1)
                        (filter ?P [Suc i..<nat (m_irqCount d)]) \<and>
           fdtab w' = fdtab w \<and> fifos w' = fifos w"
    proof (rule Suc.hyps(1) [OF k])
      fix j assume "j < nat (m_irqCount d)"
      then show "fdtab w (m_fd d ! j) \<noteq> None" by (rule Suc.prems(1))
    next
      fix j assume "Suc i \<le> j" "j < nat (m_irqCount d)" "m_fd d ! j \<in> rdy"
      then show "0 < wspace w (m_fd d ! j)" by (intro Suc.prems(2)) simp_all
    qed
    then show ?thesis by (simp only: eq skip)
  next
    case True
    let ?fd = "m_fd d ! i"
    let ?w1 = "log (Write ?fd 1) (w\<lparr>wspace := (wspace w)(?fd := wspace w ?fd - 1)\<rparr>)"
    have "fdtab w ?fd \<noteq> None" using lt by (rule Suc.prems(1))
    moreover have "0 < wspace w ?fd" using lt True by (intro Suc.prems(2)) simp_all
    ultimately have wr: "os_write ?fd w = Done 1 ?w1" by (simp add: os_write_def)
    have eq: "write_loop d b rdy i w = write_loop d b rdy (Suc i) ?w1"
      using run max True wr by (intro write_loop_write) simp_all
    have keep: "filter ?P [i..<nat (m_irqCount d)] = i # filter ?P [Suc i..<nat (m_irqCount d)]"
      using True by (simp only: upt filter.simps simp_thms if_True)
    have "\<exists>w'. write_loop d b rdy (Suc i) ?w1 = Done () w' \<and>
           trace w' = trace ?w1 @ map (\<lambda>j. Write (m_fd d ! j) 1)
                        (filter ?P [Suc i..<nat (m_irqCount d)]) \<and>
           fdtab w' = fdtab ?w1 \<and> fifos w' = fifos ?w1"
    proof (rule Suc.hyps(1) [OF k])
      fix j assume "j < nat (m_irqCount d)"
      then have "fdtab w (m_fd d ! j) \<noteq> None" by (rule Suc.prems(1))
      then show "fdtab ?w1 (m_fd d ! j) \<noteq> None" by (simp add: log_def)
    next
      fix j assume j: "Suc i \<le> j" "j < nat (m_irqCount d)" "m_fd d ! j \<in> rdy"
      then have "0 < wspace w (m_fd d ! j)" by (intro Suc.prems(2)) simp_all
      moreover have "m_fd d ! j \<noteq> ?fd"
      proof
        assume "m_fd d ! j = ?fd"
        with j(2) lt have "j = i" by (intro inj)
        with j(1) show False by simp
      qed
      ultimately show "0 < wspace ?w1 (m_fd d ! j)" by (simp add: log_def)
    qed
    then obtain w' where
      w': "write_loop d b rdy (Suc i) ?w1 = Done () w'"
        "trace w' = trace ?w1 @ map (\<lambda>j. Write (m_fd d ! j) 1)
                        (filter ?P [Suc i..<nat (m_irqCount d)])"
        "fdtab w' = fdtab ?w1" "fifos w' = fifos ?w1" by blast
    have "trace ?w1 = trace w @ [Write ?fd 1]" "fdtab ?w1 = fdtab w" "fifos ?w1 = fifos w"
      by (simp_all add: log_def)
    with w' have "write_loop d b rdy i w = Done () w' \<and>
           trace w' = trace w @ map (\<lambda>j. Write (m_fd d ! j) 1) (filter ?P [i..<nat (m_irqCount d)]) \<and>
           fdtab w' = fdtab w \<and> fifos w' = fifos w"
      by (simp add: eq keep)
    then show ?thesis by blast
  qed
qed

lemma count_list_distinct: "distinct xs \<Longrightarrow> count_list xs x = (if x \<in> set xs then 1 else 0)"
  by (induction xs) auto

lemma count_list_chosen:
  assumes inj: "\<And>i j. i < n \<Longrightarrow> j < n \<Longrightarrow> f i = f j \<Longrightarrow> i = j" and "i < n"
  shows "count_list (map f (filter P [0..<n])) (f i) = (if P i then 1 else 0)"
proof (cases "P i")
  case True
  with assms(2) have mem: "i \<in> set (filter P [0..<n])" by simp
  have "inj_on f (set (filter P [0..<n]))"
    by (rule inj_onI) (use inj in auto)
  then have "count_list (map f (filter P [0..<n])) (f i) = count_list (filter P [0..<n]) i"
    using mem by (rule count_list_inj_map)
  also have "\<dots> = 1" using mem by (simp add: count_list_distinct)
  finally show ?thesis using True by simp
next
  case False
  have "f i \<notin> set (map f (filter P [0..<n]))"
  proof
    assume "f i \<in> set (map f (filter P [0..<n]))"
    then obtain j where j: "j < n" "P j" "f i = f j" by auto
    with assms(2) inj have "i = j" by blast
    with j(2) False show False by simp
  qed
  with False show ?thesis by simp
qed

section \<open>What \<open>createPipe\<close> and the loop of \<open>init\<close> do\<close>


lemma createPipe_opened:
  assumes "createPipe path n w = Done fd w'" "fd \<noteq> -1"
  shows "0 \<le> fd \<and> fdtab w fd = None \<and> fdtab w' = (fdtab w)(fd \<mapsto> path @ sprintf_i n) \<and>
         fifos w' = insert (path @ sprintf_i n) (fifos w)"
  using assms
  by (auto simp: createPipe_def os_remove_def os_mkfifo_def os_open_def log_def Let_def
      dest: sprintf_name_Some split: option.splits prod.splits if_splits)

lemma init_loop_inv:
  assumes "init_loop d n i w = Done (True, d') w'" "length (m_fd d) = MAX_IRQS"
    "chan_inv d w i" "i \<le> MAX_IRQS"
  shows "chan_inv d' w' (nat n) \<and> m_path d' = m_path d \<and> m_irqCount d' = m_irqCount d \<and>
         length (m_fd d') = MAX_IRQS \<and> (int i \<le> n \<longrightarrow> n \<le> int MAX_IRQS)"
  using assms
proof (induction d n i w rule: init_loop.induct)
  case (1 d n i w)
  show ?case
  proof (cases "int i < n")
    case False
    with "1.prems" show ?thesis
      by (auto simp: init_loop.simps [of d n i w] chan_inv_def)
  next
    case True
    from "1.prems"(1) True obtain fd w1 where cp: "createPipe (m_path d) (int i) w = Done fd w1"
      by (auto simp: init_loop.simps [of d n i w] split: outcome.splits)
    from "1.prems"(1) True cp have lt: "i < MAX_IRQS"
      by (auto simp: init_loop.simps [of d n i w] split: if_splits)
    let ?d1 = "d\<lparr>m_fd := (m_fd d)[i := fd]\<rparr>"
    let ?d2 = "if m_fd ?d1 ! i > m_highestFD ?d1 then ?d1\<lparr>m_highestFD := m_fd ?d1 ! i\<rparr> else ?d1"
    from "1.prems"(1,2) True cp lt have ne: "fd \<noteq> -1"
      by (auto simp: init_loop.simps [of d n i w] Let_def split: if_splits)
    from "1.prems"(1,2) True cp lt ne have rec: "init_loop ?d2 n (Suc i) w1 = Done (True, d') w'"
      by (simp add: init_loop.simps [of d n i w] Let_def)
    note opened = createPipe_opened [OF cp ne]
    have inv: "chan_inv ?d2 w1 (Suc i)"
      unfolding chan_inv_def
    proof (intro allI impI)
      fix j assume "j < Suc i"
      show "0 \<le> m_fd ?d2 ! j \<and> m_fd ?d2 ! j \<le> m_highestFD ?d2 \<and>
            fdtab w1 (m_fd ?d2 ! j) = Some (m_path ?d2 @ sprintf_i (int j)) \<and>
            m_path ?d2 @ sprintf_i (int j) \<in> fifos w1"
      proof (cases "j = i")
        case True
        with opened lt "1.prems"(2) show ?thesis by simp
      next
        case False
        with \<open>j < Suc i\<close> have "j < i" by simp
        with "1.prems"(3) have old: "0 \<le> m_fd d ! j" "m_fd d ! j \<le> m_highestFD d"
          "fdtab w (m_fd d ! j) = Some (m_path d @ sprintf_i (int j))"
          "m_path d @ sprintf_i (int j) \<in> fifos w"
          by (simp_all add: chan_inv_def)
        from old(3) opened have "m_fd d ! j \<noteq> fd" by auto
        with False old opened show ?thesis by auto
      qed
    qed
    have "chan_inv d' w' (nat n) \<and> m_path d' = m_path ?d2 \<and> m_irqCount d' = m_irqCount ?d2 \<and>
         length (m_fd d') = MAX_IRQS \<and> (int (Suc i) \<le> n \<longrightarrow> n \<le> int MAX_IRQS)"
      using True cp lt ne rec inv "1.prems"(2)
      by (intro "1.IH" [of fd w1 ?d1]) (simp_all add: Let_def)
    with True show ?thesis by simp
  qed
qed

lemma init_chan_inv:
  assumes "init d dir n w = Done (True, d') w'" "length (m_fd d) = MAX_IRQS"
  shows "chan_inv d' w' (nat n) \<and> m_path d' = dir @ ''/interrupt'' \<and> m_irqCount d' = n \<and>
         length (m_fd d') = MAX_IRQS \<and> n \<le> int MAX_IRQS"
proof -
  let ?d0 = "d\<lparr>m_path := dir @ ''/interrupt'', m_irqCount := n, m_highestFD := -1\<rparr>"
  from assms(1) have run: "init_loop ?d0 n 0 w = Done (True, d') w'" by (simp add: init_def)
  have "chan_inv ?d0 w 0" by (simp add: chan_inv_def)
  with run assms(2)
  have inv: "chan_inv d' w' (nat n) \<and> m_path d' = m_path ?d0 \<and> m_irqCount d' = m_irqCount ?d0 \<and>
         length (m_fd d') = MAX_IRQS \<and> (int 0 \<le> n \<longrightarrow> n \<le> int MAX_IRQS)"
    by (intro init_loop_inv) simp_all
  moreover have "n \<le> int MAX_IRQS"
  proof (cases "0 \<le> n")
    case True
    with inv show ?thesis by simp
  next
    case False
    then show ?thesis by simp
  qed
  ultimately show ?thesis by simp
qed

lemma init_initialized:
  assumes "init d dir n w = Done (True, d') w'" "length (m_fd d) = MAX_IRQS"
  shows "initialized d' w'"
  using init_chan_inv [OF assms] by (simp add: initialized_def chan_inv_def)

section \<open>What the loops of \<open>cleanup\<close> do, and that \<open>init\<close> returns\<close>







section \<open>The sample state\<close>

text \<open>
  The state \<open>three_channels\<close> is the one \<open>init\<close> reaches from a constructed distributor,
  for the directory \<^verbatim>\<open>.\<close> and three interrupt sources.
\<close>

lemma init_three_channels:
  "init (CDistributor 0) ''.'' 3 sample_os = Done (True, three_channels) three_channels_os"
  by (simp add: init_def init_loop.simps CDistributor_def sample_os_def createPipe_def
      sprintf_name_def sprintf_i_def decimal_digit digit_char_def NAME_SIZE_def MAX_IRQS_def
      os_remove_def os_mkfifo_def os_open_def log_def Let_def eval_nat_numeral
      three_channels_def three_channels_os_def)

lemma three_channels_initialized: "initialized three_channels three_channels_os"
proof (rule init_initialized)
  show "init (CDistributor 0) ''.'' 3 sample_os = Done (True, three_channels) three_channels_os"
    by (rule init_three_channels)
  show "length (m_fd (CDistributor 0)) = MAX_IRQS"
    by (simp add: CDistributor_def)
qed



section \<open>The claims\<close>

text \<open>
  C8: when \<open>spawnSelfTest\<close> is called while the recorded count of interrupt sources is 0,
  as it is on a distributor that was constructed and never initialized, it does nothing:
  no thread is started and the environment is left as it was.
\<close>

theorem spawnSelfTest_uninitialized:
  "m_irqCount d = 0 \<Longrightarrow>
   spawnSelfTest d w = w \<and> spawnSelfTest (CDistributor h) w = w \<and>
   ThreadSpawn \<notin> set (drop (length (trace w)) (trace (spawnSelfTest d w)))"
  by (simp add: spawnSelfTest_def CDistributor_def)

theorem spawnSelfTest_uninitialized_witness:
  "m_irqCount (three_channels\<lparr>m_irqCount := 0\<rparr>) = 0 \<and>
   spawnSelfTest (three_channels\<lparr>m_irqCount := 0\<rparr>) sample_os = sample_os \<and>
   spawnSelfTest (CDistributor 7) sample_os = sample_os \<and>
   trace (spawnSelfTest three_channels sample_os) = [ThreadSpawn]"
  using spawnSelfTest_uninitialized [of "three_channels\<lparr>m_irqCount := 0\<rparr>" sample_os 7]
  by (simp add: spawnSelfTest_def three_channels_def sample_os_def log_def)

text \<open>
  C9: \<open>cleanup\<close> on a freshly constructed distributor, on which \<open>init\<close> was never called,
  leaves the distributor and the environment exactly as they were: nothing is closed and
  nothing is removed (no call is even recorded). All 32 slots hold \<open>-1\<close> from construction
  and the path is empty, so the sweep over the names is skipped.
\<close>

theorem cleanup_fresh_noop:
  "cleanup (CDistributor h) w = Done (CDistributor h) w \<and>
   set (m_fd (CDistributor h)) = {-1} \<and> length (m_fd (CDistributor h)) = 32 \<and>
   m_path (CDistributor h) = []"
  by (simp add: cleanup_def close_loop_none CDistributor_def MAX_IRQS_def)

text \<open>
  C10: \<open>init\<close> with a count of 0 returns \<open>true\<close>, makes no system call at all (so it
  creates no channel), and records a count of 0 and a highest descriptor of \<open>-1\<close>. In the
  state it leaves, \<open>distribute\<close> returns after its readiness poll on the empty set, for
  every bitmap and whatever the environment has become: it writes nothing.
\<close>

theorem init_zero_count:
  "init d dir 0 w =
     Done (True, d\<lparr>m_path := dir @ ''/interrupt'', m_irqCount := 0, m_highestFD := -1\<rparr>) w \<and>
   distribute (d\<lparr>m_path := dir @ ''/interrupt'', m_irqCount := 0, m_highestFD := -1\<rparr>) bitmap w' =
     Done () (log (Select 0 {}) w')"
  by (simp add: init_def init_loop.simps [of _ 0 0] distribute_def fdset_loop_none
      write_loop_none os_select_def)

text \<open>
  C5: an iteration of the loop of \<open>selfTest\<close>, for an interrupt source \<open>irq\<close> below the
  configured count whose FIFO was opened as descriptor \<open>f\<close> into the array of 32 slots: the bit of the source is
  written to the status register and one byte is read from \<open>f\<close>. When the read returns 0
  the loop, and with it \<open>selfTest\<close>, returns; when it returns anything else than 1 the
  process exits with code 1; when it returns 1 the loop goes on with source
  \<open>(irq + 1) mod count\<close>, that is round-robin.
\<close>

theorem selfTest_loop_iteration:
  assumes "0 < m_irqCount d" "int irq < m_irqCount d" "length fd = MAX_IRQS" "irq < MAX_IRQS"
    "fd ! irq = Some f"
  shows "selfTest_loop d fd irq (bytesRead # rest) w =
     (let w2 = log (Read f bytesRead) (reg_write IM_REG0 (push_bit irq 1) w) in
      if bytesRead = 0 then Done () w2
      else if bytesRead \<noteq> 1 then Exited 1 w2
      else selfTest_loop d fd (Suc irq mod nat (m_irqCount d)) rest w2)"
proof -
  have next_irq:
    "(if int (Suc irq) = m_irqCount d then 0 else Suc irq) = Suc irq mod nat (m_irqCount d)"
  proof (cases "int (Suc irq) = m_irqCount d")
    case True
    then have "nat (m_irqCount d) = Suc irq" by linarith
    with True show ?thesis by simp
  next
    case False
    with assms(2) have "Suc irq < nat (m_irqCount d)" by linarith
    with False show ?thesis by simp
  qed
  show ?thesis
    using assms(4,5) by (simp add: selfTest_step_def Let_def next_irq del: of_nat_Suc)
qed

theorem selfTest_loop_iteration_witness:
  "0 < m_irqCount three_channels \<and> int 2 < m_irqCount three_channels \<and>
   length ([Some 6, Some 7, Some 8] @ replicate 29 (None :: int option)) = MAX_IRQS \<and>
   2 < MAX_IRQS \<and>
   ([Some 6, Some 7, Some 8] @ replicate 29 None) ! 2 = Some (8 :: int) \<and>
   selfTest_loop three_channels ([Some 6, Some 7, Some 8] @ replicate 29 None) 2 [1, 0]
       sample_os =
     Done () (sample_os\<lparr>trace := [RegWrite IM_REG0 4, Read 8 1, RegWrite IM_REG0 1, Read 6 0]\<rparr>)"
  using selfTest_loop_iteration
    [of three_channels 2 "[Some 6, Some 7, Some 8] @ replicate 29 None" 8 1 "[0]" sample_os]
  by (simp add: three_channels_def sample_os_def MAX_IRQS_def selfTest_step_def reg_write_def
      log_def Let_def)

text \<open>
  C3: a pass of the monitor loop in which re-enabling the interrupts and the read of the
  notification succeed. When the status register reads 0, the pass ends after that
  read: nothing is written to the acknowledge register, \<open>distribute\<close> is not called, and
  the loop goes on with its next pass. When it reads a bitmap other than 0, the bitmap is
  written to the acknowledge register \<open>IM_REG1\<close> right after it was read, and every call
  that follows in the pass is the readiness poll or a write to a channel of
  \<open>distribute\<close>: the acknowledge comes before any channel write.
\<close>

theorem monitor_pass_acknowledges_first:
  assumes "pwrite_ret inp = 1" "read_ret inp = 4"
  shows "(status inp = 0 \<longrightarrow>
            monitor_pass d inp w =
              Done () (w\<lparr>trace := trace w @ [ConfigWrite 1, UioRead 4, RegRead IM_REG0 0]\<rparr>) \<and>
            monitorInterrupts d (inp # inps) w =
              monitorInterrupts d inps
                (w\<lparr>trace := trace w @ [ConfigWrite 1, UioRead 4, RegRead IM_REG0 0]\<rparr>)) \<and>
         (status inp \<noteq> 0 \<longrightarrow>
            (\<exists>es. trace (world_of (monitor_pass d inp w)) =
                    trace w @ [ConfigWrite 1, UioRead 4, RegRead IM_REG0 (status inp),
                               RegWrite IM_REG1 (status inp)] @ es \<and>
                  (\<forall>e \<in> set es. (\<exists>n s. e = Select n s) \<or> (\<exists>f r. e = Write f r))))"
proof (intro conjI impI)
  assume "status inp = 0"
  with assms show z: "monitor_pass d inp w =
      Done () (w\<lparr>trace := trace w @ [ConfigWrite 1, UioRead 4, RegRead IM_REG0 0]\<rparr>)"
    by (simp add: monitor_pass_def log_def Let_def)
  then show "monitorInterrupts d (inp # inps) w =
      monitorInterrupts d inps (w\<lparr>trace := trace w @ [ConfigWrite 1, UioRead 4, RegRead IM_REG0 0]\<rparr>)"
    by simp
next
  assume nz: "status inp \<noteq> 0"
  let ?w4 = "w\<lparr>trace := trace w @ [ConfigWrite 1, UioRead 4, RegRead IM_REG0 (status inp),
                               RegWrite IM_REG1 (status inp)]\<rparr>"
  from assms nz have "monitor_pass d inp w = distribute d (status inp) ?w4"
    by (simp add: monitor_pass_def reg_write_def log_def Let_def)
  with distribute_trace [of d "status inp" ?w4]
  show "\<exists>es. trace (world_of (monitor_pass d inp w)) =
                    trace w @ [ConfigWrite 1, UioRead 4, RegRead IM_REG0 (status inp),
                               RegWrite IM_REG1 (status inp)] @ es \<and>
                  (\<forall>e \<in> set es. (\<exists>n s. e = Select n s) \<or> (\<exists>f r. e = Write f r))"
    by simp
qed

theorem monitor_pass_acknowledges_first_witness:
  "pwrite_ret \<lparr>pwrite_ret = 1, read_ret = 4, status = 5\<rparr> = 1 \<and>
   read_ret \<lparr>pwrite_ret = 1, read_ret = 4, status = 5\<rparr> = 4 \<and>
   status \<lparr>pwrite_ret = 1, read_ret = 4, status = 5\<rparr> \<noteq> 0 \<and>
   trace (world_of (monitor_pass three_channels \<lparr>pwrite_ret = 1, read_ret = 4, status = 5\<rparr>
                      three_channels_os)) =
     trace three_channels_os @
       [ConfigWrite 1, UioRead 4, RegRead IM_REG0 5, RegWrite IM_REG1 5,
        Select 6 {5, 4, 3}, Write 3 1, Write 5 1]"
  using monitor_pass_acknowledges_first
    [of "\<lparr>pwrite_ret = 1, read_ret = 4, status = 5\<rparr>" three_channels three_channels_os]
  by (simp add: monitor_pass_def reg_write_def distribute_def fdset_loop.simps write_loop.simps
      os_select_def os_write_def source_active_def log_def Let_def three_channels_def
      three_channels_os_def sample_os_def MAX_IRQS_def)

text \<open>
  C2: in a state that a successful \<open>init\<close> has left, \<open>distribute\<close> returns (it is
  neither suspended in a write nor undefined), and the calls it makes are one readiness
  poll, on the descriptors of the configured channels with \<open>m_highestFD + 1\<close> as bound,
  followed by one write of one byte for each configured index, in ascending order, whose
  bit is set in the bitmap and whose descriptor the poll reported as writable. So channel
  \<open>i\<close> receives exactly one byte when bit \<open>i\<close> is set and the poll reported its
  descriptor, and none otherwise; for the bitmap 0 nothing is written. The poll reports
  the descriptor of a channel exactly when the environment says so and the descriptor
  has room, so room alone does not bring a write. Descriptors and FIFOs are left as they
  were.
\<close>

theorem distribute_writes_ready_channels:
  assumes "initialized d w"
  shows "\<exists>w'. distribute d bitmap w = Done () w' \<and>
           events_since w w' =
             Select (m_highestFD d + 1) {m_fd d ! j | j. j < nat (m_irqCount d)} #
             map (\<lambda>j. Write (m_fd d ! j) 1)
               (filter (\<lambda>j. bit bitmap j \<and> m_fd d ! j \<in> polled d w) [0..<nat (m_irqCount d)]) \<and>
           (\<forall>i < nat (m_irqCount d).
              bytes_written (events_since w w') (m_fd d ! i) =
                (if bit bitmap i \<and> m_fd d ! i \<in> polled d w then 1 else 0)) \<and>
           (\<forall>i < nat (m_irqCount d).
              (m_fd d ! i \<in> polled d w) =
                (poll_ready w (m_fd d ! i) \<and> 0 < wspace w (m_fd d ! i))) \<and>
           (bitmap = 0 \<longrightarrow> (\<forall>fd r. Write fd r \<notin> set (events_since w w'))) \<and>
           fdtab w' = fdtab w \<and> fifos w' = fifos w"
proof -
  let ?n = "nat (m_irqCount d)"
  let ?S = "{m_fd d ! j | j. j < ?n}"
  let ?hi = "m_highestFD d + 1"
  let ?rdy = "{fd \<in> ?S. fd < ?hi \<and> poll_ready w fd \<and> 0 < wspace w fd}"
  let ?w1 = "log (Select ?hi ?S) w"
  let ?P = "\<lambda>j. bit bitmap j \<and> m_fd d ! j \<in> polled d w"
  let ?Q = "\<lambda>j. source_active bitmap j \<and> m_fd d ! j \<in> ?rdy"
  from assms have cnt: "m_irqCount d \<le> int MAX_IRQS" by (simp add: initialized_def)
  have chan: "fdtab w (m_fd d ! j) \<noteq> None" "m_fd d ! j \<le> m_highestFD d" if "j < ?n" for j
    using assms that by (simp_all add: initialized_def)
  have inj: "i = j" if "i < ?n" "j < ?n" "m_fd d ! i = m_fd d ! j" for i j
    using assms that by (rule initialized_inj)
  have "fdset_loop d 0 {} w = Done ({} \<union> {m_fd d ! j | j. 0 \<le> j \<and> j < ?n}) w"
    using cnt by (rule fdset_loop_Done)
  then have fdset: "fdset_loop d 0 {} w = Done ?S w" by simp
  have noclosed: "\<not> (\<exists>fd \<in> ?S. fd < ?hi \<and> fdtab w fd = None)" using chan(1) by auto
  have sel: "os_select ?hi ?S w = (?rdy, ?w1)"
    unfolding os_select_def by (simp only: noclosed if_False)
  then have reported: "polled d w = ?rdy" by (simp only: polled_def fst_conv)
  have rdy: "(m_fd d ! j \<in> ?rdy) = (poll_ready w (m_fd d ! j) \<and> 0 < wspace w (m_fd d ! j))"
    if "j < ?n" for j
    using chan(2) [OF that] that by auto
  have "\<exists>w'. write_loop d bitmap ?rdy 0 ?w1 = Done () w' \<and>
           trace w' = trace ?w1 @ map (\<lambda>j. Write (m_fd d ! j) 1) (filter ?Q [0..<?n]) \<and>
           fdtab w' = fdtab ?w1 \<and> fifos w' = fifos ?w1"
  proof (rule write_loop_ready [OF cnt])
    fix i j assume "i < ?n" "j < ?n" "m_fd d ! i = m_fd d ! j"
    then show "i = j" by (rule inj)
  next
    fix j assume "j < ?n"
    then show "fdtab ?w1 (m_fd d ! j) \<noteq> None" using chan(1) by (simp add: log_def)
  next
    fix j assume "j < ?n" "m_fd d ! j \<in> ?rdy"
    then show "0 < wspace ?w1 (m_fd d ! j)" by (simp add: log_def)
  qed
  then obtain w' where w': "write_loop d bitmap ?rdy 0 ?w1 = Done () w'"
    "trace w' = trace ?w1 @ map (\<lambda>j. Write (m_fd d ! j) 1) (filter ?Q [0..<?n])"
    "fdtab w' = fdtab ?w1" "fifos w' = fifos ?w1" by blast
  have "filter ?Q [0..<?n] = filter ?P [0..<?n]"
  proof (rule filter_cong [OF refl])
    fix j assume "j \<in> set [0..<?n]"
    show "?Q j = ?P j" by (simp only: source_active_bit reported)
  qed
  with w'(2) have tr: "trace w' = trace w @ Select ?hi ?S # map (\<lambda>j. Write (m_fd d ! j) 1) (filter ?P [0..<?n])"
    by (simp add: log_def)
  then have ev: "events_since w w' = Select ?hi ?S # map (\<lambda>j. Write (m_fd d ! j) 1) (filter ?P [0..<?n])"
    by (simp add: events_since_def)
  have run: "distribute d bitmap w = Done () w'"
    using fdset sel w'(1) by (simp add: distribute_def)
  have count: "bytes_written (events_since w w') (m_fd d ! i) = (if ?P i then 1 else 0)"
    if "i < ?n" for i
  proof -
    have "count_list (map (\<lambda>j. Write (m_fd d ! j) 1) (filter ?P [0..<?n])) (Write (m_fd d ! i) 1) =
        (if ?P i then 1 else 0)"
    proof (rule count_list_chosen [where f = "\<lambda>j. Write (m_fd d ! j) 1"])
      fix i j assume "i < ?n" "j < ?n" "Write (m_fd d ! i) 1 = Write (m_fd d ! j) 1"
      then show "i = j" using inj by simp
    qed (rule that)
    then show ?thesis by (simp add: bytes_written_def ev)
  qed
  have poll: "\<forall>i < ?n. (m_fd d ! i \<in> polled d w) =
      (poll_ready w (m_fd d ! i) \<and> 0 < wspace w (m_fd d ! i))"
    using rdy by (simp only: reported) blast
  have zero: "bitmap = 0 \<longrightarrow> (\<forall>fd r. Write fd r \<notin> set (events_since w w'))"
    by (simp add: ev)
  have counts: "\<forall>i < ?n. bytes_written (events_since w w') (m_fd d ! i) = (if ?P i then 1 else 0)"
    using count by blast
  have tabs: "fdtab w' = fdtab w" "fifos w' = fifos w"
    using w'(3,4) by (simp_all add: log_def)
  show ?thesis
    by (rule exI [of _ w']) (intro conjI run ev counts poll zero tabs)
qed

theorem distribute_writes_ready_channels_witness:
  "initialized three_channels unreported_os \<and>
   wspace unreported_os 5 = 1 \<and> \<not> poll_ready unreported_os 5 \<and>
   polled three_channels unreported_os = {3, 4} \<and>
   distribute three_channels 5 unreported_os =
     Done () (unreported_os
       \<lparr>wspace := (\<lambda>fd. 1)(3 := 0),
        trace := trace unreported_os @ [Select 6 {5, 4, 3}, Write 3 1]\<rparr>) \<and>
   bytes_written [Select 6 {5, 4, 3}, Write 3 1] 3 = 1 \<and>
   bytes_written [Select 6 {5, 4, 3}, Write 3 1] 4 = 0 \<and>
   bytes_written [Select 6 {5, 4, 3}, Write 3 1] 5 = 0"
proof -
  have ready: "initialized three_channels unreported_os"
    using three_channels_initialized by (simp add: initialized_def unreported_os_def)
  have env: "wspace unreported_os 5 = 1" "\<not> poll_ready unreported_os 5"
    by (simp_all add: unreported_os_def three_channels_os_def sample_os_def)
  have "{j. j < nat (m_irqCount three_channels)} = {0, 1, 2}"
    by (auto simp: three_channels_def)
  then have "{m_fd three_channels ! j | j. j < nat (m_irqCount three_channels)} = {3, 4, 5}"
    by (simp only: setcompr_eq_image) (simp add: three_channels_def)
  then have poll: "polled three_channels unreported_os = {3, 4}"
    by (simp only: polled_def)
      (auto simp: os_select_def unreported_os_def three_channels_def three_channels_os_def
        sample_os_def)
  have run: "distribute three_channels 5 unreported_os =
     Done () (unreported_os
       \<lparr>wspace := (\<lambda>fd. 1)(3 := 0),
        trace := trace unreported_os @ [Select 6 {5, 4, 3}, Write 3 1]\<rparr>)"
    by (simp add: distribute_def fdset_loop.simps write_loop.simps os_select_def os_write_def
        source_active_def log_def Let_def three_channels_def three_channels_os_def
        unreported_os_def sample_os_def MAX_IRQS_def)
  from distribute_writes_ready_channels [OF ready, of 5] run
  have "events_since unreported_os (unreported_os
       \<lparr>wspace := (\<lambda>fd. 1)(3 := 0),
        trace := trace unreported_os @ [Select 6 {5, 4, 3}, Write 3 1]\<rparr>) =
      [Select 6 {5, 4, 3}, Write 3 1]"
    by (simp add: events_since_def)
  with ready env poll run show ?thesis by (simp add: bytes_written_def)
qed






text \<open>
  C7, as the code has it: after a successful \<open>init\<close> for the directory \<open>dir\<close>, the
  descriptor of every configured index \<open>i\<close> is open on the FIFO named \<open>dir\<close>, then the
  fixed component \<^verbatim>\<open>/interrupt\<close>, then the decimal numeral of \<open>i\<close>; the FIFO exists under
  that name, and no other index has the same name.
\<close>

theorem channel_name_dir_interrupt_index:
  assumes "init d dir n w = Done (True, d') w'" "length (m_fd d) = MAX_IRQS"
  shows "\<forall>i < nat n.
           fdtab w' (m_fd d' ! i) = Some ((dir @ ''/interrupt'') @ sprintf_i (int i)) \<and>
           (dir @ ''/interrupt'') @ sprintf_i (int i) \<in> fifos w' \<and>
           (\<forall>j. (dir @ ''/interrupt'') @ sprintf_i (int j) =
                  (dir @ ''/interrupt'') @ sprintf_i (int i) \<longrightarrow> j = i)"
proof (intro allI impI conjI)
  fix i assume i: "i < nat n"
  from init_chan_inv [OF assms] have inv: "chan_inv d' w' (nat n)"
    and path: "m_path d' = dir @ ''/interrupt''" by simp_all
  from inv i have "fdtab w' (m_fd d' ! i) = Some (m_path d' @ sprintf_i (int i))"
    and "m_path d' @ sprintf_i (int i) \<in> fifos w'"
    by (simp_all add: chan_inv_def)
  then show "fdtab w' (m_fd d' ! i) = Some ((dir @ ''/interrupt'') @ sprintf_i (int i))"
    and "(dir @ ''/interrupt'') @ sprintf_i (int i) \<in> fifos w'"
    unfolding path .
next
  fix i j
  assume "(dir @ ''/interrupt'') @ sprintf_i (int j) = (dir @ ''/interrupt'') @ sprintf_i (int i)"
  then have "sprintf_i (int j) = sprintf_i (int i)" by (rule same_append_eq [THEN iffD1])
  then show "j = i" by (rule sprintf_i_inj_nat)
qed

theorem channel_name_dir_interrupt_index_witness:
  "init (CDistributor 0) ''.'' 3 sample_os = Done (True, three_channels) three_channels_os \<and>
   length (m_fd (CDistributor 0)) = MAX_IRQS \<and>
   fdtab three_channels_os (m_fd three_channels ! 2) = Some ''./interrupt2'' \<and>
   ''./interrupt2'' \<in> fifos three_channels_os"
proof -
  have len: "length (m_fd (CDistributor 0)) = MAX_IRQS" by (simp add: CDistributor_def)
  from channel_name_dir_interrupt_index [OF init_three_channels len, rule_format, of 2]
  have "fdtab three_channels_os (m_fd three_channels ! 2) =
          Some ((''.'' @ ''/interrupt'') @ sprintf_i (int 2)) \<and>
        (''.'' @ ''/interrupt'') @ sprintf_i (int 2) \<in> fifos three_channels_os"
    by simp
  then show ?thesis
    using init_three_channels len by (simp add: sprintf_i_def decimal_digit digit_char_def)
qed

text \<open>
  C7, as the specification states it, fails: for the directory \<^verbatim>\<open>.\<close> the channel of
  index 0 is not named \<^verbatim>\<open>.0\<close>, the directory followed by the index, and no FIFO of that
  name exists; its name is \<^verbatim>\<open>./interrupt0\<close>.
\<close>

theorem channel_name_not_dir_index:
  "init (CDistributor 0) ''.'' 3 sample_os = Done (True, three_channels) three_channels_os \<and>
   ''.'' @ sprintf_i 0 = ''.0'' \<and>
   fdtab three_channels_os (m_fd three_channels ! 0) \<noteq> Some (''.'' @ sprintf_i 0) \<and>
   ''.'' @ sprintf_i 0 \<notin> fifos three_channels_os \<and>
   fdtab three_channels_os (m_fd three_channels ! 0) = Some ''./interrupt0''"
  using init_three_channels
  by (simp add: sprintf_i_def decimal_digit digit_char_def three_channels_def
      three_channels_os_def sample_os_def)

section \<open>More interrupt sources than \<open>MAX_IRQS\<close>\<close>

lemma first_free_run:
  assumes "\<And>fd. lo \<le> fd \<Longrightarrow> fd < lo + int k \<Longrightarrow> tab fd \<noteq> None"
    and "tab (lo + int k) = None" "k < fuel"
  shows "first_free tab lo fuel = lo + int k"
  using assms
proof (induction k arbitrary: lo fuel)
  case 0
  then obtain m where "fuel = Suc m" by (cases fuel) simp_all
  with "0.prems"(2) show ?case by simp
next
  case (Suc k)
  from Suc.prems(3) obtain m where fuel: "fuel = Suc m" and m: "k < m"
    by (cases fuel) simp_all
  have used: "tab lo \<noteq> None" by (rule Suc.prems(1)) simp_all
  have "first_free tab (lo + 1) m = (lo + 1) + int k"
  proof (rule Suc.IH)
    fix fd assume "lo + 1 \<le> fd" "fd < lo + 1 + int k"
    then show "tab fd \<noteq> None" by (intro Suc.prems(1)) simp_all
  next
    from Suc.prems(2) show "tab (lo + 1 + int k) = None" by (simp add: add.commute add.left_commute)
  qed (rule m)
  with used fuel show ?case by simp
qed

lemma createPipe_after_sources:
  assumes "k \<le> MAX_IRQS"
  shows "createPipe ''./interrupt'' (int k) (after_sources k) =
           Done (3 + int k) (after_sources (Suc k))"
proof -
  let ?name = "''./interrupt'' @ sprintf_i (int k)"
  let ?w = "after_sources k"
  from assms have "k < 100" by (simp add: MAX_IRQS_def)
  from decimal_length_small [OF this] have name: "sprintf_name ''./interrupt'' (int k) = Some ?name"
    by (simp add: sprintf_name_def sprintf_i_def NAME_SIZE_def Let_def)
  have fresh: "?name \<notin> fifos ?w"
    by (auto simp: after_sources_def dest: sprintf_i_inj_nat)
  have pick: "open_pick ?w (fdtab ?w) ?name = 3 + int k"
  proof -
    have "first_free (fdtab ?w) 3 64 = 3 + int k"
    proof (rule first_free_run)
      fix fd :: int assume "3 \<le> fd" "fd < 3 + int k"
      then show "fdtab ?w fd \<noteq> None" by (simp add: after_sources_def)
    next
      show "fdtab ?w (3 + int k) = None" by (simp add: after_sources_def)
    next
      from assms show "k < 64" by (simp add: MAX_IRQS_def)
    qed
    then show ?thesis by (simp add: after_sources_def sample_os_def)
  qed
  have free: "fdtab ?w (3 + int k) = None" by (simp add: after_sources_def)
  have allowed: "mkfifo_ok ?w ?name" by (simp add: after_sources_def sample_os_def)
  let ?w1 = "os_remove ?name ?w"
  have w1: "fifos ?w1 = fifos ?w" "mkfifo_ok ?w1 = mkfifo_ok ?w" "open_pick ?w1 = open_pick ?w"
    "fdtab ?w1 = fdtab ?w"
    using fresh by (simp_all add: os_remove_def log_def)
  let ?w2 = "log (Mkfifo ?name 0) (?w1\<lparr>fifos := insert ?name (fifos ?w1)\<rparr>)"
  have mk: "os_mkfifo ?name ?w1 = (0, ?w2)"
    using fresh allowed w1 by (simp add: os_mkfifo_def)
  let ?w3 = "log (Open ?name (3 + int k)) (?w2\<lparr>fdtab := (fdtab ?w2)(3 + int k \<mapsto> ?name)\<rparr>)"
  have op: "os_open ?name ?w2 = (3 + int k, ?w3)"
    using pick free w1 by (simp add: os_open_def log_def Let_def)
  have run: "createPipe ''./interrupt'' (int k) ?w = Done (3 + int k) ?w3"
    using name mk op by (simp add: createPipe_def Let_def)
  have names: "insert ?name {''./interrupt'' @ sprintf_i (int j) | j. j < k} =
      {''./interrupt'' @ sprintf_i (int j) | j. j < Suc k}"
    by (auto simp: less_Suc_eq)
  have table: "(\<lambda>fd. if 3 \<le> fd \<and> fd < 3 + int k
                     then Some (''./interrupt'' @ sprintf_i (fd - 3)) else None)
               (3 + int k \<mapsto> ?name) =
      (\<lambda>fd. if 3 \<le> fd \<and> fd < 3 + int (Suc k)
            then Some (''./interrupt'' @ sprintf_i (fd - 3)) else None)"
    by (auto simp: fun_eq_iff)
  have "?w3 = after_sources (Suc k)"
    using fresh names table
    by (simp add: after_sources_def os_remove_def log_def del: of_nat_Suc)
  with run show ?thesis by simp
qed

lemma init_loop_overrun:
  assumes "int MAX_IRQS < n" "k \<le> MAX_IRQS" "length (m_fd d) = MAX_IRQS"
    "m_path d = ''./interrupt''"
  shows "init_loop d n k (after_sources k) = Undefined (after_sources (Suc MAX_IRQS))"
  using assms(2-4)
proof (induction "MAX_IRQS - k" arbitrary: k d)
  case 0
  then have k: "k = MAX_IRQS" by simp
  with assms(1) have run: "int k < n" and full: "\<not> k < MAX_IRQS" by simp_all
  from createPipe_after_sources [OF "0.prems"(1)] "0.prems"(3)
  have "createPipe (m_path d) (int k) (after_sources k) = Done (3 + int k) (after_sources (Suc k))"
    by simp
  with run full have "init_loop d n k (after_sources k) = Undefined (after_sources (Suc k))"
    by (simp add: init_loop.simps [of d n k "after_sources k"])
  then show ?case unfolding k .
next
  case (Suc m)
  then have lt: "k < MAX_IRQS" by simp
  with assms(1) have run: "int k < n" by simp
  from createPipe_after_sources [OF Suc.prems(1)] Suc.prems(3)
  have cp: "createPipe (m_path d) (int k) (after_sources k) =
      Done (3 + int k) (after_sources (Suc k))"
    by simp
  let ?d1 = "d\<lparr>m_fd := (m_fd d)[k := 3 + int k]\<rparr>"
  let ?d2 = "if m_fd ?d1 ! k > m_highestFD ?d1 then ?d1\<lparr>m_highestFD := m_fd ?d1 ! k\<rparr> else ?d1"
  from lt Suc.prems(2) have stored: "m_fd ?d1 ! k = 3 + int k" by simp
  then have "m_fd ?d1 ! k \<noteq> -1" by simp
  with run lt cp have eq: "init_loop d n k (after_sources k) =
      init_loop ?d2 n (Suc k) (after_sources (Suc k))"
    by (simp add: init_loop.simps [of d n k "after_sources k"] Let_def)
  have "init_loop ?d2 n (Suc k) (after_sources (Suc k)) = Undefined (after_sources (Suc MAX_IRQS))"
  proof (rule Suc.hyps(1))
    from Suc.hyps(2) show "m = MAX_IRQS - Suc k" by simp
    from lt show "Suc k \<le> MAX_IRQS" by simp
    from Suc.prems(2) show "length (m_fd ?d2) = MAX_IRQS" by simp
    from Suc.prems(3) show "m_path ?d2 = ''./interrupt''" by simp
  qed
  with eq show ?case by simp
qed

text \<open>
  C1: what \<open>init\<close> does for 33 interrupt sources, one more than \<open>fd_\<close> has slots, in a
  directory where every FIFO can be created and opened. The count is not compared with
  \<open>MAX_IRQS\<close>: the loop creates and opens the FIFOs of the indices 0 to 32, and the store
  of the descriptor of index 32 is outside the array. No failure is reported before the
  first FIFO is created, and 33 FIFOs exist afterwards.
\<close>

theorem init_above_MAX_IRQS_overruns:
  "init (CDistributor h) ''.'' 33 sample_os = Undefined (after_sources 33) \<and>
   ''./interrupt0'' \<in> fifos (after_sources 33) \<and>
   ''./interrupt32'' \<in> fifos (after_sources 33) \<and>
   fdtab (after_sources 33) 35 = Some ''./interrupt32'' \<and>
   take 3 (trace (after_sources 33)) =
     [Remove ''./interrupt0'', Mkfifo ''./interrupt0'' 0, Open ''./interrupt0'' 3]"
proof -
  let ?d0 = "(CDistributor h)\<lparr>m_path := ''.'' @ ''/interrupt'', m_irqCount := 33, m_highestFD := -1\<rparr>"
  have start: "after_sources 0 = sample_os"
    by (auto simp: after_sources_def sample_os_def fun_eq_iff)
  have "init_loop ?d0 33 0 (after_sources 0) = Undefined (after_sources (Suc MAX_IRQS))"
    by (rule init_loop_overrun) (simp_all add: CDistributor_def MAX_IRQS_def)
  then have run: "init (CDistributor h) ''.'' 33 sample_os = Undefined (after_sources 33)"
    by (simp add: init_def start MAX_IRQS_def)
  have "''./interrupt0'' = ''./interrupt'' @ sprintf_i (int 0)"
    by (simp add: sprintf_i_def decimal_digit digit_char_def)
  then have first: "''./interrupt0'' \<in> fifos (after_sources 33)"
    unfolding after_sources_def by (simp del: of_nat_0) (rule exI [of _ 0], simp)
  have name32: "''./interrupt32'' = ''./interrupt'' @ sprintf_i (int 32)"
    by (simp add: sprintf_i_def decimal_digit decimal_more digit_char_def)
  then have last: "''./interrupt32'' \<in> fifos (after_sources 33)"
    unfolding after_sources_def by (simp del: of_nat_numeral) (rule exI [of _ 32], simp)
  have slot: "fdtab (after_sources 33) 35 = Some ''./interrupt32''"
    by (simp add: after_sources_def sprintf_i_def decimal_digit decimal_more digit_char_def)
  have calls: "take 3 (trace (after_sources 33)) =
     [Remove ''./interrupt0'', Mkfifo ''./interrupt0'' 0, Open ''./interrupt0'' 3]"
    by (simp add: after_sources_def upt_rec [of 0 33] sprintf_i_def decimal_digit digit_char_def)
  from run first last slot calls show ?thesis by simp
qed


end
